theory Spec2Isabelle
  imports Main "HOL-Library.Word" "HOL-Library.Sublist" "HOL-Library.AList"
    "HOL-Library.Char_ord" "HOL-Library.List_Lexorder"
begin

unbundle bit_operations_syntax


section \<open>Quoted-printable reader (the straddle-aware variant)\<close>

text \<open>
  The reader modelled here is the variant of \<^verbatim>\<open>Reader\<close> that owns the \<^verbatim>\<open>prev\<close> and
  \<^verbatim>\<open>last\<close> fields (the source text that follows the tests in
  \<^verbatim>\<open>quotedprintable/qputf8_test.go\<close>). Bytes are 8-bit words.
\<close>

type_synonym byte = "8 word"

datatype qperr =
    EOF
  | ErrUnexpectedEOF
  | ErrBufferFull
  | InvalidHexByte byte
  | InvalidUnescapedByte byte
  | InvalidBytesAfterEq "byte list"

subsection \<open>The error record \<^verbatim>\<open>RErr\<close>\<close>

text \<open>
  \<^verbatim>\<open>count\<close> and the array \<^verbatim>\<open>errs[maxQPRErr]\<close> are the list \<open>errs\<close> (its length is
  \<^verbatim>\<open>count\<close>); \<^verbatim>\<open>err\<close> is \<open>fatal\<close>.
\<close>

definition maxQPRErr :: nat where
  "maxQPRErr = 4"

definition maxQPBuf :: nat where
  "maxQPBuf = 3"

record RErr =
  errs :: "qperr list"
  fatal :: "qperr option"

definition RErr_add :: "qperr option \<Rightarrow> RErr \<Rightarrow> RErr" where
  "RErr_add err q =
     (case err of
        None \<Rightarrow> q
      | Some e \<Rightarrow> if length (errs q) = maxQPRErr then q else q\<lparr>errs := errs q @ [e]\<rparr>)"

definition addUnrecover :: "qperr option \<Rightarrow> RErr \<Rightarrow> RErr" where
  "addUnrecover err q = (case err of None \<Rightarrow> q | Some e \<Rightarrow> q\<lparr>fatal := Some e\<rparr>)"

definition getErr :: "RErr \<Rightarrow> qperr option" where
  "getErr q = (case errs q of [] \<Rightarrow> fatal q | e # _ \<Rightarrow> Some e)"

subsection \<open>The reader state\<close>

text \<open>
  \<open>Fn\<close> is the selector installed by the constructor. \<open>br\<close> is the buffered reader over an
  in-memory source (\<^verbatim>\<open>strings.NewReader\<close>): the bytes it has not handed out yet.
  \<^verbatim>\<open>last\<close> is always a slice of \<^verbatim>\<open>prev\<close>; it is kept as its offset and its length, so
  that a write to \<^verbatim>\<open>prev\<close> is seen through \<^verbatim>\<open>last\<close> as in the source.
  \<^verbatim>\<open>line\<close> is a slice of the buffer of \<^verbatim>\<open>br\<close>; the only write through it is the
  \<^verbatim>\<open>append\<close> after trimming, which stays inside the bytes of the line itself, and
  \<^verbatim>\<open>ReadSlice\<close> is only called when \<^verbatim>\<open>line\<close> is empty, so it is kept as a value.
\<close>

datatype selector = Strict | Lenient

record Reader =
  Fn :: selector
  br :: "byte list"
  gerr :: RErr
  rerr :: "qperr option"
  line :: "byte list"
  prev :: "byte list"
  lastOff :: nat
  lastLen :: nat

definition getReader :: "selector \<Rightarrow> byte list \<Rightarrow> Reader" where
  "getReader f src =
     \<lparr>Fn = f, br = src, gerr = \<lparr>errs = [], fatal = None\<rparr>, rerr = None, line = [],
      prev = [0, 0, 0, 0], lastOff = 0, lastLen = 0\<rparr>"

definition NewStrictReader :: "byte list \<Rightarrow> Reader" where
  "NewStrictReader src = getReader Strict src"

definition NewReader :: "byte list \<Rightarrow> Reader" where
  "NewReader src = getReader Lenient src"

definition callFn :: "Reader \<Rightarrow> qperr option" where
  "callFn r = (case Fn r of Strict \<Rightarrow> getErr (gerr r) | Lenient \<Rightarrow> fatal (gerr r))"

definition lastBytes :: "Reader \<Rightarrow> byte list" where
  "lastBytes r = take (lastLen r) (drop (lastOff r) (prev r))"

subsection \<open>Helpers of the source\<close>

definition fromHex :: "byte \<Rightarrow> qperr + byte" where
  "fromHex b =
     (if 0x30 \<le> b \<and> b \<le> 0x39 then Inr (b - 0x30)
      else if 0x41 \<le> b \<and> b \<le> 0x46 then Inr (b - 0x41 + 10)
      else if 0x61 \<le> b \<and> b \<le> 0x66 then Inr (b - 0x61 + 10)
      else Inl (InvalidHexByte b))"

definition readHexByte :: "byte list \<Rightarrow> qperr + byte" where
  "readHexByte v =
     (case v of
        v0 # v1 # _ \<Rightarrow>
          (case fromHex v0 of
             Inl e \<Rightarrow> Inl e
           | Inr hb \<Rightarrow>
               (case fromHex v1 of
                  Inl e \<Rightarrow> Inl e
                | Inr lb \<Rightarrow> Inr (push_bit 4 hb OR lb)))
      | _ \<Rightarrow> Inl ErrUnexpectedEOF)"

definition isQPDiscardWhitespace :: "byte \<Rightarrow> bool" where
  "isQPDiscardWhitespace b \<longleftrightarrow> b = 0x0A \<or> b = 0x0D \<or> b = 0x20 \<or> b = 0x09"

text \<open>
  \<^verbatim>\<open>bytes.TrimRightFunc\<close> walks runes from the right; the predicate holds of four ASCII
  runes only, and a byte below 0x80 is a rune of width one, so the trim is bytewise.
\<close>

definition TrimRight :: "byte list \<Rightarrow> byte list" where
  "TrimRight w = rev (dropWhile isQPDiscardWhitespace (rev w))"

definition crlf :: "byte list" where
  "crlf = [0x0D, 0x0A]"

definition lf :: "byte list" where
  "lf = [0x0A]"

definition softSuffix :: "byte list" where
  "softSuffix = [0x3D]"

subsection \<open>\<^verbatim>\<open>bufio.Reader.ReadSlice\<close> over an in-memory source\<close>

text \<open>
  \<^verbatim>\<open>bufio.NewReader\<close> allocates 4096 bytes. \<^verbatim>\<open>ReadSlice('\n')\<close> returns the bytes up to
  and including the first newline when that lies within the next 4096 bytes; otherwise the
  next 4096 bytes with \<^verbatim>\<open>ErrBufferFull\<close> when that many remain; otherwise what remains
  with \<^verbatim>\<open>io.EOF\<close>. The result is the line, the error and the bytes left.
\<close>

definition bufSize :: nat where
  "bufSize = 4096"

definition ReadSlice :: "byte list \<Rightarrow> byte list \<times> qperr option \<times> byte list" where
  "ReadSlice s =
     (let w = takeWhile (\<lambda>b. b \<noteq> 0x0A) (take bufSize s) in
      if length w < length (take bufSize s)
      then (take (Suc (length w)) s, None, drop (Suc (length w)) s)
      else if bufSize \<le> length s
      then (take bufSize s, Some ErrBufferFull, drop bufSize s)
      else (s, Some EOF, []))"

subsection \<open>One iteration of the loop of \<^verbatim>\<open>Read\<close>\<close>

text \<open>
  An iteration writes one byte to \<^verbatim>\<open>p\<close> (\<open>Emit\<close>), or goes round again without writing
  (\<open>Skip\<close>), or leaves through the error returned by \<^verbatim>\<open>Fn\<close> (\<open>Stop\<close>), in which case
  the pending bytes of \<^verbatim>\<open>last\<close> are ejected as far as \<^verbatim>\<open>p\<close> has room.
\<close>

datatype outcome = Emit byte Reader | Skip Reader | Stop qperr

text \<open>Fetching and preparing the next line, when \<^verbatim>\<open>line\<close> is empty and \<^verbatim>\<open>Fn\<close> is nil.\<close>

definition acquireLine :: "Reader \<Rightarrow> Reader" where
  "acquireLine r =
     (case ReadSlice (br r) of (l, re, rest) \<Rightarrow>
        let r1 = r\<lparr>br := rest, line := l, rerr := re\<rparr> in
        if re = Some ErrBufferFull then r1\<lparr>gerr := RErr_add re (gerr r1)\<rparr>
        else
          let r2 = r1\<lparr>gerr := addUnrecover re (gerr r1)\<rparr>;
              hasLF = suffix lf l;
              hasCR = suffix crlf l;
              wholeLine = l;
              t = TrimRight wholeLine
          in if suffix softSuffix t then
               let rightStripped = drop (length t) wholeLine;
                   r3 = r2\<lparr>line := butlast t\<rparr>
               in if \<not> prefix lf rightStripped \<and> \<not> prefix crlf rightStripped
                  then r3\<lparr>rerr := Some (InvalidBytesAfterEq rightStripped),
                          gerr := RErr_add (Some (InvalidBytesAfterEq rightStripped)) (gerr r3)\<rparr>
                  else r3
             else if hasLF then
               (if hasCR then r2\<lparr>line := t @ [0x0D, 0x0A]\<rparr> else r2\<lparr>line := t @ [0x0A]\<rparr>)
             else r2\<lparr>line := t\<rparr>)"

text \<open>
  The ordinary scan of the first byte of a non-empty \<^verbatim>\<open>line\<close>, with \<^verbatim>\<open>last\<close> empty. An
  escape cut short by a full source buffer is moved to \<^verbatim>\<open>prev\<close>.
\<close>

definition scanByte :: "Reader \<Rightarrow> outcome" where
  "scanByte r =
     (case line r of
        [] \<Rightarrow> Skip r
      | b # rest \<Rightarrow>
          if b = 0x3D then
            (case readHexByte rest of
               Inl err \<Rightarrow>
                 if err = ErrUnexpectedEOF \<and> rerr r = Some ErrBufferFull
                 then Skip (r\<lparr>prev := line r @ drop (length (line r)) (prev r),
                              lastOff := 0, lastLen := length (line r), line := []\<rparr>)
                 else Emit 0x3D (r\<lparr>gerr := RErr_add (Some err) (gerr r), line := rest\<rparr>)
             | Inr v \<Rightarrow> Emit v (r\<lparr>line := drop 2 rest\<rparr>))
          else if b = 0x09 \<or> b = 0x0D \<or> b = 0x0A then Emit b (r\<lparr>line := rest\<rparr>)
          else if b < 0x20 \<or> b > 0x7E
          then Emit b (r\<lparr>gerr := RErr_add (Some (InvalidUnescapedByte b)) (gerr r), line := rest\<rparr>)
          else Emit b (r\<lparr>line := rest\<rparr>))"

text \<open>
  The loop \<^verbatim>\<open>for i := 0; i < diff; i++ { r.prev[lastNum+i] = r.line[0]; r.line = r.line[1:] }\<close>.
  It is only reached with at least \<open>diff\<close> bytes in \<^verbatim>\<open>line\<close>.
\<close>

fun pull :: "nat \<Rightarrow> nat \<Rightarrow> byte list \<Rightarrow> byte list \<Rightarrow> byte list \<times> byte list" where
  "pull 0 i pv l = (pv, l)"
| "pull (Suc d) i pv l = pull d (Suc i) (pv[i := hd l]) (tl l)"

text \<open>Resuming with pending bytes in \<^verbatim>\<open>last\<close> and a non-empty \<^verbatim>\<open>line\<close>.\<close>

definition afterBreak :: "Reader \<Rightarrow> outcome" where
  "afterBreak r = (if line r = [] then Skip r else scanByte r)"

definition resume :: "Reader \<Rightarrow> outcome" where
  "resume r =
     (let lastNum = lastLen r; b = prev r ! lastOff r in
      if b = 0x3D then
        (if lastNum = 1 \<and> prefix lf (line r)
         then afterBreak (r\<lparr>line := drop (length lf) (line r), lastOff := 0, lastLen := 0\<rparr>)
         else if lastNum = 1 \<and> prefix crlf (line r)
         then afterBreak (r\<lparr>line := drop (length crlf) (line r), lastOff := 0, lastLen := 0\<rparr>)
         else if lastNum = 1 \<and> length (line r) < 2
         then Skip (r\<lparr>prev := (prev r)[1 := hd (line r)], line := tl (line r),
                      lastOff := 0, lastLen := 2\<rparr>)
         else
           (case pull (maxQPBuf - lastNum) lastNum (prev r) (line r) of (pv, l) \<Rightarrow>
              (case readHexByte (tl (take maxQPBuf pv)) of
                 Inl err \<Rightarrow>
                   Emit 0x3D (r\<lparr>prev := pv, line := l, gerr := RErr_add (Some err) (gerr r),
                                lastOff := 1, lastLen := maxQPBuf - 1\<rparr>)
               | Inr v \<Rightarrow>
                   Emit v (r\<lparr>prev := pv, line := l, lastOff := 3, lastLen := maxQPBuf - 3\<rparr>))))
      else Emit b (r\<lparr>lastOff := lastOff r + 1, lastLen := lastNum - 1\<rparr>))"

definition step :: "Reader \<Rightarrow> outcome" where
  "step r =
     (if line r = [] then
        (case callFn r of Some e \<Rightarrow> Stop e | None \<Rightarrow> Skip (acquireLine r))
      else if 0 < lastLen r then resume r
      else scanByte r)"


subsection \<open>Termination measure of the loop\<close>

text \<open>
  Every iteration that does not leave the loop consumes source bytes, records the end of the
  source, shortens \<^verbatim>\<open>line\<close>, or shortens \<^verbatim>\<open>last\<close>; \<open>weight\<close> decreases in each case.
\<close>

definition weight :: "Reader \<Rightarrow> nat" where
  "weight r = 8 * length (br r) + (if fatal (gerr r) = None then 1 else 0) + 4 * length (line r) + lastLen r"

lemma TrimRight_length: "length (TrimRight l) \<le> length l"
  by (simp add: TrimRight_def) (metis length_dropWhile_le length_rev)

lemma TrimRight_snoc_ws: "isQPDiscardWhitespace b \<Longrightarrow> TrimRight (l @ [b]) = TrimRight l"
  by (simp add: TrimRight_def)

lemma TrimRight_lf: "suffix lf l \<Longrightarrow> Suc (length (TrimRight l)) \<le> length l"
  by (auto simp: suffix_def lf_def TrimRight_snoc_ws isQPDiscardWhitespace_def
      intro: le_trans[OF TrimRight_length])

lemma TrimRight_crlf: "suffix crlf l \<Longrightarrow> Suc (Suc (length (TrimRight l))) \<le> length l"
proof -
  assume "suffix crlf l"
  then obtain l' where l: "l = (l' @ [0x0D]) @ [0x0A]" by (auto simp: suffix_def crlf_def)
  have "TrimRight l = TrimRight l'"
    unfolding l by (simp add: TrimRight_def isQPDiscardWhitespace_def)
  with TrimRight_length[of l'] show ?thesis by (simp add: l)
qed

lemma ReadSlice_cases:
  assumes "ReadSlice s = (l, re, rest)"
  shows "s = l @ rest \<and> (s \<noteq> [] \<longrightarrow> l \<noteq> []) \<and> (s = [] \<longrightarrow> re = Some EOF)"
  using assms
  by (auto simp: ReadSlice_def Let_def bufSize_def split: if_splits)

lemma fatal_add [simp]: "fatal (RErr_add e q) = fatal q"
  by (simp add: RErr_add_def split: option.splits)

lemma acquireLine_facts:
  assumes rs: "ReadSlice (br r) = (l, re, rest)"
  shows "br (acquireLine r) = rest" "length (line (acquireLine r)) \<le> length l"
    "lastLen (acquireLine r) = lastLen r" "lastOff (acquireLine r) = lastOff r"
    "prev (acquireLine r) = prev r" "Fn (acquireLine r) = Fn r"
    "fatal (gerr (acquireLine r)) = (if re = None \<or> re = Some ErrBufferFull then fatal (gerr r) else re)"
  using rs TrimRight_length[of l] TrimRight_lf[of l] TrimRight_crlf[of l]
  by (auto simp: acquireLine_def Let_def addUnrecover_def split: option.splits)

lemma acquireLine_weight:
  assumes "fatal (gerr r) = None" "line r = []"
  shows "weight (acquireLine r) < weight r"
proof -
  obtain l re rest where rs: "ReadSlice (br r) = (l, re, rest)" by (metis prod_cases3)
  note c = ReadSlice_cases[OF rs]
  note f = acquireLine_facts[OF rs]
  show ?thesis
  proof (cases "br r = []")
    case True
    with c have "l = []" "rest = []" "re = Some EOF" by auto
    then show ?thesis using assms f True by (simp add: weight_def)
  next
    case False
    with c have "l \<noteq> []" and br: "length (br r) = length l + length rest" by auto
    then obtain n where ln: "length l = Suc n" by (cases l) auto
    show ?thesis using assms ln br f(1,2,3) by (simp add: weight_def)
  qed
qed

lemma readHexByte_Inr_length: "readHexByte v = Inr x \<Longrightarrow> 2 \<le> length v"
  by (cases v; cases "tl v") (auto simp: readHexByte_def)

lemma scanByte_weight:
  assumes "line r \<noteq> []" "scanByte r = Skip r' \<or> scanByte r = Emit b r'"
  shows "weight r' < weight r"
proof -
  obtain c rest where l: "line r = c # rest" using assms(1) by (cases "line r") auto
  show ?thesis using assms(2) readHexByte_Inr_length[of rest]
    by (auto simp: scanByte_def l weight_def split: if_splits sum.splits)
qed

lemma pull_length: "pull d i pv l = (pv', l') \<Longrightarrow> length l' = length l - d"
  by (induction d i pv l rule: pull.induct) auto

lemma afterBreak_weight:
  assumes "afterBreak r1 = Skip r' \<or> afterBreak r1 = Emit b r'"
  shows "weight r' \<le> weight r1"
  using assms scanByte_weight[of r1 r' b]
  by (auto simp: afterBreak_def split: if_splits)

lemma resume_weight:
  assumes "line r \<noteq> []" "0 < lastLen r" "resume r = Skip r' \<or> resume r = Emit b r'"
  shows "weight r' < weight r"
proof -
  obtain c rest where l: "line r = c # rest" using assms(1) by (cases "line r") auto
  consider (brk1) "prev r ! lastOff r = 0x3D" "lastLen r = 1" "prefix lf (line r)"
    | (brk2) "prev r ! lastOff r = 0x3D" "lastLen r = 1" "\<not> prefix lf (line r)" "prefix crlf (line r)"
    | (one) "prev r ! lastOff r = 0x3D" "lastLen r = 1" "\<not> prefix lf (line r)" "\<not> prefix crlf (line r)" "length (line r) < 2"
    | (pl) "prev r ! lastOff r = 0x3D" "\<not> (lastLen r = 1 \<and> prefix lf (line r))"
           "\<not> (lastLen r = 1 \<and> prefix crlf (line r))" "\<not> (lastLen r = 1 \<and> length (line r) < 2)"
    | (plain) "prev r ! lastOff r \<noteq> 0x3D"
    by blast
  then show ?thesis
  proof cases
    case brk1
    let ?r1 = "r\<lparr>line := drop (length lf) (line r), lastOff := 0, lastLen := 0\<rparr>"
    from brk1 assms(3) have "afterBreak ?r1 = Skip r' \<or> afterBreak ?r1 = Emit b r'"
      by (simp add: resume_def Let_def)
    from afterBreak_weight[OF this] brk1 l show ?thesis
      by (simp add: weight_def lf_def)
  next
    case brk2
    let ?r1 = "r\<lparr>line := drop (length crlf) (line r), lastOff := 0, lastLen := 0\<rparr>"
    from brk2 assms(3) have "afterBreak ?r1 = Skip r' \<or> afterBreak ?r1 = Emit b r'"
      by (simp add: resume_def Let_def)
    from afterBreak_weight[OF this] brk2 l show ?thesis
      by (simp add: weight_def crlf_def)
  next
    case one
    with assms(3) l show ?thesis by (auto simp: resume_def Let_def weight_def)
  next
    case pl
    obtain pv l' where p: "pull (maxQPBuf - lastLen r) (lastLen r) (prev r) (line r) = (pv, l')"
      by (metis surj_pair)
    from pull_length[OF p] have ll: "length l' = length (line r) - (maxQPBuf - lastLen r)" .
    from pl assms(2) l have "lastLen r = 1 \<and> 2 \<le> length (line r) \<or> 2 \<le> lastLen r"
      by (cases rest) auto
    with pl assms(3) p ll l show ?thesis
      by (auto simp: resume_def Let_def weight_def maxQPBuf_def split: sum.splits)
  next
    case plain
    with assms show ?thesis by (auto simp: resume_def Let_def weight_def)
  qed
qed

lemma callFn_None_fatal: "callFn r = None \<Longrightarrow> fatal (gerr r) = None"
  by (auto simp: callFn_def getErr_def split: selector.splits list.splits)

lemma step_weight:
  assumes "step r = Skip r' \<or> step r = Emit b r'"
  shows "weight r' < weight r"
proof (cases "line r = []")
  case True
  with assms have "callFn r = None" "r' = acquireLine r"
    by (auto simp: step_def split: option.splits)
  with acquireLine_weight[OF callFn_None_fatal True] show ?thesis by simp
next
  case False
  with assms scanByte_weight[OF False, of r' b] resume_weight[OF False, of r' b]
  show ?thesis by (auto simp: step_def split: if_splits)
qed

lemma step_Skip_weight: "step r = Skip r' \<Longrightarrow> weight r' < weight r"
  using step_weight[of r r'] by simp

lemma step_Emit_weight: "step r = Emit b r' \<Longrightarrow> weight r' < weight r"
  using step_weight[of r r' b] by simp

subsection \<open>\<^verbatim>\<open>Read\<close>, and a caller that drains the reader\<close>

text \<open>
  \<open>Read k r\<close> is \<^verbatim>\<open>r.Read(p)\<close> with \<^verbatim>\<open>len(p) = k\<close>: the bytes written to \<^verbatim>\<open>p\<close>, the
  error returned and the reader afterwards. On the error path the pending bytes of
  \<^verbatim>\<open>last\<close> are ejected while \<^verbatim>\<open>p\<close> has room.
\<close>

function Read :: "nat \<Rightarrow> Reader \<Rightarrow> byte list \<times> qperr option \<times> Reader" where
  "Read k r =
     (if k = 0 then ([], None, r)
      else case step r of
        Stop e \<Rightarrow>
          (take k (lastBytes r), Some e,
           r\<lparr>lastOff := lastOff r + min k (lastLen r), lastLen := lastLen r - k\<rparr>)
      | Skip r' \<Rightarrow> Read k r'
      | Emit b r' \<Rightarrow> (case Read (k - 1) r' of (out, e, r'') \<Rightarrow> (b # out, e, r'')))"
  by pat_completeness auto
termination
  by (relation "measures [fst, weight \<circ> snd]") (auto dest: step_Skip_weight)

text \<open>
  \<open>run r\<close> follows the iterations of the loop without regard to the capacity of \<^verbatim>\<open>p\<close>:
  the bytes emitted until \<^verbatim>\<open>Fn\<close> returns an error, that error, and the bytes then
  pending in \<^verbatim>\<open>last\<close>.
\<close>

function run :: "Reader \<Rightarrow> byte list \<times> qperr \<times> byte list" where
  "run r =
     (case step r of
        Stop e \<Rightarrow> ([], e, lastBytes r)
      | Skip r' \<Rightarrow> run r'
      | Emit b r' \<Rightarrow> (case run r' of (out, e, pend) \<Rightarrow> (b # out, e, pend)))"
  by pat_completeness auto
termination
  by (relation "measure weight") (auto dest: step_Skip_weight step_Emit_weight)

declare Read.simps [simp del]

lemma Read_weight:
  "Read k r = (out, None, r') \<Longrightarrow> 0 < k \<Longrightarrow> weight r' < weight r"
proof (induction k r arbitrary: out rule: Read.induct)
  case (1 k r)
  show ?case
  proof (cases "step r")
    case (Emit b r1)
    obtain o1 e1 r2 where rd: "Read (k - 1) r1 = (o1, e1, r2)" by (metis prod_cases3)
    from "1.prems" Emit rd have e: "e1 = None" "r2 = r'" by (auto simp: Read.simps[of k r])
    show ?thesis
    proof (cases "k - 1 = 0")
      case True
      with rd e have "r1 = r'" by (simp add: Read.simps[of 0 r1])
      with step_Emit_weight[OF Emit] show ?thesis by simp
    next
      case False
      with "1.IH"(1)[OF _ Emit, of o1] rd e "1.prems" step_Emit_weight[OF Emit]
      show ?thesis by auto
    qed
  next
    case (Skip r1)
    with "1.prems" have "Read k r1 = (out, None, r')" by (auto simp: Read.simps[of k r])
    with "1.IH"(2)[OF _ Skip] "1.prems" step_Skip_weight[OF Skip] show ?thesis by auto
  next
    case (Stop e)
    with "1.prems" show ?thesis by (auto simp: Read.simps[of k r])
  qed
qed

declare run.simps [simp del]

text \<open>
  \<open>Copy sz i r\<close> is a caller in the manner of \<^verbatim>\<open>io.Copy\<close>: it calls \<^verbatim>\<open>Read\<close> with a
  buffer of \<open>sz i + 1\<close> bytes, then \<open>sz (i + 1) + 1\<close> bytes and so on, collects what was
  written, and stops at the first error, which it reports unless it is \<^verbatim>\<open>io.EOF\<close>.
\<close>

function Copy :: "(nat \<Rightarrow> nat) \<Rightarrow> nat \<Rightarrow> Reader \<Rightarrow> byte list \<times> qperr option" where
  "Copy sz i r =
     (case Read (Suc (sz i)) r of
        (out, Some e, r') \<Rightarrow> (out, if e = EOF then None else Some e)
      | (out, None, r') \<Rightarrow> (case Copy sz (Suc i) r' of (out', e') \<Rightarrow> (out @ out', e')))"
  by pat_completeness auto
termination
  by (relation "measure (\<lambda>(sz, i, r). weight r)") (auto dest: Read_weight[OF sym])

declare Copy.simps [simp del]

lemma Read_run:
  "Read k r = (o1, eo, r') \<Longrightarrow>
     (case eo of
        None \<Rightarrow> run r = (case run r' of (o2, e, p) \<Rightarrow> (o1 @ o2, e, p))
      | Some e \<Rightarrow> (\<exists>o2 p. run r = (o2, e, p) \<and> o1 = o2 @ take (k - length o2) p))"
proof (induction k r arbitrary: o1 eo r' rule: Read.induct)
  case (1 k r)
  show ?case
  proof (cases "k = 0")
    case True
    with "1.prems" show ?thesis by (auto simp: Read.simps[of 0 r] split: prod.splits)
  next
    case k: False
    show ?thesis
    proof (cases "step r")
      case (Emit b r1)
      obtain o3 e3 r3 where rd: "Read (k - 1) r1 = (o3, e3, r3)" by (metis prod_cases3)
      from "1.prems" Emit rd k have e: "o1 = b # o3" "eo = e3" "r' = r3"
        by (auto simp: Read.simps[of k r])
      from "1.IH"(1)[OF k Emit rd] e Emit k show ?thesis
        by (cases e3) (auto simp: run.simps[of r] split: prod.splits)
    next
      case (Skip r1)
      with "1.prems" k have "Read k r1 = (o1, eo, r')" by (auto simp: Read.simps[of k r])
      from "1.IH"(2)[OF k Skip this] Skip show ?thesis
        by (cases eo) (simp_all add: run.simps[of r])
    next
      case (Stop e)
      with "1.prems" k show ?thesis
        by (cases eo) (auto simp: Read.simps[of k r] run.simps[of r])
    qed
  qed
qed

lemma Copy_run:
  "run r = (out, e, []) \<Longrightarrow> Copy sz i r = (out, if e = EOF then None else Some e)"
proof (induction sz i r arbitrary: out rule: Copy.induct)
  case (1 sz i r)
  obtain o1 eo r' where rd: "Read (Suc (sz i)) r = (o1, eo, r')" by (metis prod_cases3)
  show ?case
  proof (cases eo)
    case None
    obtain o2 e2 p2 where rr: "run r' = (o2, e2, p2)" by (metis prod_cases3)
    from Read_run[OF rd] None rr "1.prems" have x: "out = o1 @ o2" "e2 = e" "p2 = []" by auto
    from "1.IH"[OF rd[unfolded None, symmetric] refl refl, of o2] rr x
    have "Copy sz (Suc i) r' = (o2, if e = EOF then None else Some e)" by simp
    with rd None x show ?thesis by (simp add: Copy.simps[of sz i r])
  next
    case (Some e')
    from Read_run[OF rd] Some "1.prems" have "o1 = out" "e' = e" by auto
    with rd Some show ?thesis by (simp add: Copy.simps[of sz i r])
  qed
qed

subsection \<open>Evaluation and auxiliary facts\<close>


lemmas qp_eval = step_def callFn_def getErr_def acquireLine_def ReadSlice_def bufSize_def
  TrimRight_def isQPDiscardWhitespace_def softSuffix_def lf_def crlf_def Let_def
  scanByte_def resume_def afterBreak_def readHexByte_def fromHex_def RErr_add_def addUnrecover_def
  maxQPRErr_def maxQPBuf_def lastBytes_def suffix_to_prefix


text \<open>The hexadecimal digits accepted by \<^verbatim>\<open>fromHex\<close>: 0-9, A-F and, permissively, a-f.\<close>

definition isHexDigit :: "byte \<Rightarrow> bool" where
  "isHexDigit b \<longleftrightarrow> (0x30 \<le> b \<and> b \<le> 0x39) \<or> (0x41 \<le> b \<and> b \<le> 0x46) \<or> (0x61 \<le> b \<and> b \<le> 0x66)"

lemma fromHex_Inl_iff: "(\<exists>e. fromHex b = Inl e) \<longleftrightarrow> \<not> isHexDigit b"
  by (auto simp: fromHex_def isHexDigit_def)

lemma fromHex_Inl: "\<not> isHexDigit b \<Longrightarrow> fromHex b = Inl (InvalidHexByte b)"
  by (auto simp: fromHex_def isHexDigit_def)

lemma fromHex_Inr: "isHexDigit b \<Longrightarrow> \<exists>v. fromHex b = Inr v"
  by (auto simp: fromHex_def isHexDigit_def)


text \<open>
  A byte that the scan passes through without recording anything: printable and not the
  equals sign, or a tab, a carriage return or a line feed.
\<close>

definition plainByte :: "byte \<Rightarrow> bool" where
  "plainByte b \<longleftrightarrow> b \<noteq> 0x3D \<and> ((0x20 \<le> b \<and> b \<le> 0x7E) \<or> b = 0x09 \<or> b = 0x0D \<or> b = 0x0A)"

lemma step_plain:
  "line r = b # l \<Longrightarrow> lastLen r = 0 \<Longrightarrow> plainByte b \<Longrightarrow> step r = Emit b (r\<lparr>line := l\<rparr>)"
  by (auto simp: step_def scanByte_def plainByte_def)

lemma run_plain:
  "\<forall>b\<in>set ps. plainByte b \<Longrightarrow> lastLen r = 0 \<Longrightarrow> line r = ps @ l \<Longrightarrow>
     run r = (case run (r\<lparr>line := l\<rparr>) of (out, e, p) \<Rightarrow> (ps @ out, e, p))"
proof (induction ps arbitrary: r)
  case Nil
  then have "r\<lparr>line := l\<rparr> = r" by simp
  then show ?case by (simp split: prod.splits)
next
  case (Cons b ps)
  from Cons.prems have s: "step r = Emit b (r\<lparr>line := ps @ l\<rparr>)"
    by (intro step_plain) auto
  from Cons.IH[of "r\<lparr>line := ps @ l\<rparr>"] Cons.prems
  have "run (r\<lparr>line := ps @ l\<rparr>) = (case run (r\<lparr>line := l\<rparr>) of (out, e, p) \<Rightarrow> (ps @ out, e, p))"
    by simp
  with s show ?case by (simp add: run.simps[of r] split: prod.splits)
qed

lemma ReadSlice_full:
  "length u = bufSize \<Longrightarrow> 0x0A \<notin> set u \<Longrightarrow> ReadSlice (u @ v) = (u, Some ErrBufferFull, v)"
proof -
  assume a: "length u = bufSize" "0x0A \<notin> set u"
  then have tw: "takeWhile (\<lambda>b. b \<noteq> 0x0A) u = u" by (auto simp: takeWhile_eq_all_conv)
  show ?thesis by (simp add: ReadSlice_def Let_def tw a(1))
qed

lemma long_lf_run:
  "run (NewReader (replicate 4095 0x41 @ [0x3D, 0x0A] @ replicate 3 0x41)) = (replicate 4098 0x41, EOF, [])"
proof -
  let ?u = "replicate 4095 (0x41::byte) @ [0x3D]"
  let ?v = "[0x0A, 0x41, 0x41, 0x41] :: byte list"
  let ?r0 = "NewReader (?u @ ?v)"
  let ?r1 = "?r0\<lparr>br := ?v, line := ?u, rerr := Some ErrBufferFull,
                    gerr := \<lparr>errs = [ErrBufferFull], fatal = None\<rparr>\<rparr>"
  have rs: "ReadSlice (?u @ ?v) = (?u, Some ErrBufferFull, ?v)"
    by (rule ReadSlice_full) (simp_all add: bufSize_def)
  have a: "acquireLine ?r0 = ?r1"
    using rs by (simp add: acquireLine_def NewReader_def getReader_def RErr_add_def maxQPRErr_def)
  have s0: "step ?r0 = Skip ?r1"
    unfolding a[symmetric] by (simp add: step_def callFn_def NewReader_def getReader_def)
  have r1: "run ?r1 = (case run (?r1\<lparr>line := [0x3D]\<rparr>) of (out, e, p) \<Rightarrow> (replicate 4095 0x41 @ out, e, p))"
    by (rule run_plain) (simp_all add: plainByte_def NewReader_def getReader_def)
  have r2: "run (?r1\<lparr>line := [0x3D]\<rparr>) = ([0x41, 0x41, 0x41], EOF, [])"
    by (simp add: NewReader_def getReader_def run.simps qp_eval)
  have "run ?r0 = run ?r1" by (subst run.simps, subst s0) simp
  also have "\<dots> = (replicate 4095 0x41 @ [0x41, 0x41, 0x41], EOF, [])" using r1 r2 by simp
  also have "replicate 4095 (0x41::byte) @ [0x41, 0x41, 0x41] = replicate 4098 0x41"
    using replicate_add[of 4095 3 "0x41::byte"] by (simp add: numeral_3_eq_3)
  finally show ?thesis by (simp add: numeral_3_eq_3)
qed

lemma long_crlf_run:
  "run (NewReader (replicate 4095 0x41 @ [0x3D, 0x0D, 0x0A] @ replicate 2 0x41)) = (replicate 4097 0x41, EOF, [])"
proof -
  let ?u = "replicate 4095 (0x41::byte) @ [0x3D]"
  let ?v = "[0x0D, 0x0A, 0x41, 0x41] :: byte list"
  let ?r0 = "NewReader (?u @ ?v)"
  let ?r1 = "?r0\<lparr>br := ?v, line := ?u, rerr := Some ErrBufferFull,
                    gerr := \<lparr>errs = [ErrBufferFull], fatal = None\<rparr>\<rparr>"
  have rs: "ReadSlice (?u @ ?v) = (?u, Some ErrBufferFull, ?v)"
    by (rule ReadSlice_full) (simp_all add: bufSize_def)
  have a: "acquireLine ?r0 = ?r1"
    using rs by (simp add: acquireLine_def NewReader_def getReader_def RErr_add_def maxQPRErr_def)
  have s0: "step ?r0 = Skip ?r1"
    unfolding a[symmetric] by (simp add: step_def callFn_def NewReader_def getReader_def)
  have r1: "run ?r1 = (case run (?r1\<lparr>line := [0x3D]\<rparr>) of (out, e, p) \<Rightarrow> (replicate 4095 0x41 @ out, e, p))"
    by (rule run_plain) (simp_all add: plainByte_def NewReader_def getReader_def)
  have r2: "run (?r1\<lparr>line := [0x3D]\<rparr>) = ([0x41, 0x41], EOF, [])"
    by (simp add: NewReader_def getReader_def run.simps qp_eval)
  have "run ?r0 = run ?r1" by (subst run.simps, subst s0) simp
  also have "\<dots> = (replicate 4095 0x41 @ [0x41, 0x41], EOF, [])" using r1 r2 by simp
  also have "replicate 4095 (0x41::byte) @ [0x41, 0x41] = replicate 4097 0x41"
    using replicate_add[of 4095 2 "0x41::byte"] by (simp add: numeral_2_eq_2)
  finally show ?thesis by (simp add: numeral_2_eq_2)
qed


section \<open>UTF-8 rejoiner (\<^verbatim>\<open>quotedprintable/qputf8.go\<close>)\<close>

text \<open>
  The variant modelled is the one that records \<^verbatim>\<open>pos\<close> and \<^verbatim>\<open>last\<close>. The upstream reader
  is an in-memory source (\<^verbatim>\<open>strings.NewReader\<close>), as in \<^verbatim>\<open>Test_qpUTF8\<close>: \<open>upstream\<close> holds
  the bytes it has not delivered yet. The counters are never negative and are kept as
  naturals; \<^verbatim>\<open>allowedReadSize\<close> is computed over the integers as in the source.
\<close>

datatype ustate = stNormal | stStart | st0x0D | st0x0A | st0x10XXXXXX | stRelease | stReleaseRestart

record qpUTF8 =
  upstream :: "byte list"
  state :: ustate
  pos :: nat
  pco :: nat
  cco :: nat
  own :: "byte list"
  pcb :: nat
  ccb :: nat
  buf :: "byte list"
  last_byte :: byte
  err :: "qperr option"

definition UTFMax :: nat where
  "UTFMax = 4"

definition newQPUTF8 :: "byte list \<Rightarrow> qpUTF8" where
  "newQPUTF8 src =
     \<lparr>upstream = src, state = stNormal, pos = 0, pco = 0, cco = 0, own = [0, 0, 0, 0, 0, 0],
      pcb = 0, ccb = 0, buf = replicate 512 0, last_byte = 0, err = None\<rparr>"

text \<open>
  \<^verbatim>\<open>release\<close> copies the held bytes \<^verbatim>\<open>own[cco..pco)\<close> to the output and reports
  \<open>False\<close> as soon as the output is full; once they are all out it resets the
  buffer. The output \<^verbatim>\<open>p[0..count)\<close> is the list \<open>out\<close>, and \<open>mx\<close> is \<^verbatim>\<open>len(p)\<close>.
\<close>

function release :: "qpUTF8 \<Rightarrow> byte list \<Rightarrow> nat \<Rightarrow> bool \<Rightarrow> qpUTF8 \<times> byte list \<times> bool" where
  "release q out mx restart =
     (if cco q < pco q then
        (let out' = out @ [own q ! cco q]; q' = q\<lparr>cco := cco q + 1\<rparr>
         in if mx \<le> length out' then (q', out', False) else release q' out' mx restart)
      else
        (if restart
         then (q\<lparr>cco := 0, own := (own q)[0 := last_byte q], pco := 1, state := stStart\<rparr>, out, True)
         else (q\<lparr>cco := 0, pco := 0, state := stNormal\<rparr>, out, True)))"
  by pat_completeness auto
termination
  by (relation "measure (\<lambda>(q, out, mx, restart). pco q - cco q)") auto

declare release.simps [simp del]

text \<open>
  The \<^verbatim>\<open>switch\<close> statement of \<^verbatim>\<open>cycle\<close> for the states other than \<^verbatim>\<open>stNormal\<close>;
  it has no case for \<^verbatim>\<open>stRelease\<close> and \<^verbatim>\<open>stReleaseRestart\<close>.
\<close>

definition switch :: "qpUTF8 \<Rightarrow> byte \<Rightarrow> qpUTF8" where
  "switch q b =
     (case state q of
        stStart \<Rightarrow>
          (let c0mask = b AND 0xC0 in
           if c0mask = 0xC0 then q\<lparr>last_byte := b, state := stReleaseRestart\<rparr>
           else
             let currentPos = pco q;
                 q1 = q\<lparr>own := (own q)[pco q := b], pco := pco q + 1\<rparr>
             in if b = 0x0D then q1\<lparr>pos := currentPos, state := st0x0D\<rparr>
                else if b = 0x0A then q1\<lparr>pos := currentPos, state := st0x0A\<rparr>
                else if c0mask \<noteq> 0x80 \<or> UTFMax \<le> pco q1 then q1\<lparr>state := stRelease\<rparr>
                else q1)
      | st0x0D \<Rightarrow>
          (if b AND 0xC0 = 0xC0 then q\<lparr>last_byte := b, state := stReleaseRestart\<rparr>
           else
             let q1 = q\<lparr>own := (own q)[pco q := b], pco := pco q + 1\<rparr>
             in if b = 0x0A then q1\<lparr>state := st0x0A\<rparr> else q1\<lparr>state := stRelease\<rparr>)
      | st0x0A \<Rightarrow>
          (let c0mask = b AND 0xC0 in
           if c0mask = 0xC0 then q\<lparr>last_byte := b, state := stReleaseRestart\<rparr>
           else if c0mask = 0x80
           then q\<lparr>own := (own q)[pos q := b], pco := pos q + 1, state := st0x10XXXXXX\<rparr>
           else q\<lparr>own := (own q)[pco q := b], pco := pco q + 1, state := stRelease\<rparr>)
      | st0x10XXXXXX \<Rightarrow>
          (let c0mask = b AND 0xC0 in
           if c0mask = 0xC0 then q\<lparr>last_byte := b, state := stReleaseRestart\<rparr>
           else
             let q1 = q\<lparr>own := (own q)[pco q := b], pco := pco q + 1\<rparr>
             in if c0mask \<noteq> 0x80 \<or> pco q1 = 6 then q1\<lparr>state := stRelease\<rparr> else q1)
      | _ \<Rightarrow> q)"

text \<open>
  \<^verbatim>\<open>cycle\<close> runs the bytes \<^verbatim>\<open>buf[i..n)\<close> through the state machine. In
  \<^verbatim>\<open>stNormal\<close> a byte that is not a lead byte goes straight to the output.
\<close>

function cycle :: "qpUTF8 \<Rightarrow> byte list \<Rightarrow> nat \<Rightarrow> nat \<Rightarrow> nat \<Rightarrow> qpUTF8 \<times> byte list \<times> bool" where
  "cycle q out i n mx =
     (if i < n then
        (let b = buf q ! i in
         if state q = stNormal \<and> b AND 0xC0 \<noteq> 0xC0 then
           (let out' = out @ [b]
            in if mx \<le> length out' then (q\<lparr>pcb := n, ccb := i + 1\<rparr>, out', False)
               else cycle q out' (i + 1) n mx)
         else
           (let q1 = (if state q = stNormal
                      then q\<lparr>state := stStart, own := (own q)[0 := b], pco := 1\<rparr>
                      else switch q b);
                isReleaseRestart = (state q1 = stReleaseRestart)
            in if isReleaseRestart \<or> state q1 = stRelease then
                 (case release q1 out mx isReleaseRestart of
                    (q2, out', ok) \<Rightarrow>
                      if \<not> ok then (q2\<lparr>pcb := n, ccb := i + 1\<rparr>, out', False)
                      else cycle q2 out' (i + 1) n mx)
               else cycle q1 out (i + 1) n mx))
      else (q, out, True))"
  by pat_completeness auto
termination
  by (relation "measure (\<lambda>(q, out, i, n, mx). n - i)") auto

declare cycle.simps [simp del]

text \<open>
  \<^verbatim>\<open>n, q.err = q.r.Read(q.buf[:k])\<close> on the in-memory source: it copies what fits, and
  reports \<^verbatim>\<open>io.EOF\<close> with no bytes once the source is exhausted.
\<close>

definition upstreamRead :: "qpUTF8 \<Rightarrow> nat \<Rightarrow> qpUTF8 \<times> nat" where
  "upstreamRead q k =
     (if upstream q = [] then (q\<lparr>err := Some EOF\<rparr>, 0)
      else let n = min k (length (upstream q))
           in (q\<lparr>buf := take n (upstream q) @ drop n (buf q), upstream := drop n (upstream q),
                  err := None\<rparr>, n))"

text \<open>\<open>qpUTF8_Read q mx\<close> is \<^verbatim>\<open>q.Read(p)\<close> with \<^verbatim>\<open>len(p) = mx\<close>, for a non-empty \<^verbatim>\<open>p\<close>.\<close>

definition qpUTF8_Read :: "qpUTF8 \<Rightarrow> nat \<Rightarrow> byte list \<times> qperr option \<times> qpUTF8" where
  "qpUTF8_Read q mx =
     (case (if ccb q < pcb q then cycle q [] (ccb q) (pcb q) mx else (q, [], True)) of
        (q1, out1, ok1) \<Rightarrow>
          if \<not> ok1 then (out1, None, q1)
          else if err q1 \<noteq> None then
            (if state q1 = st0x10XXXXXX \<or> (state q1 = stStart \<and> 1 < int (pco q1) - int (cco q1))
             then (case release q1 out1 mx False of (q2, out2, ok2) \<Rightarrow> (out2, err q2, q2))
             else (out1, err q1, q1))
          else
            (let allowedReadSize = (int mx - int (length out1)) - (int (pco q1) - int (cco q1))
             in case (if 0 < allowedReadSize
                      then (if 512 < allowedReadSize then upstreamRead q1 512
                            else upstreamRead q1 (nat allowedReadSize))
                      else (q1, 0)) of
                  (q2, n) \<Rightarrow>
                    (case cycle q2 out1 0 n mx of
                       (q3, out3, ok3) \<Rightarrow>
                         if ok3 then
                           (let q4 = q3\<lparr>pcb := 0, ccb := 0\<rparr>
                            in if pco q4 \<le> cco q4 then (out3, err q4, q4) else (out3, None, q4))
                         else (out3, None, q3))))"

text \<open>
  A caller in the manner of \<^verbatim>\<open>ioutil.ReadAll\<close>: it calls \<^verbatim>\<open>Read\<close> with buffers of
  \<open>sz i + 1\<close>, \<open>sz (i + 1) + 1\<close>, ... bytes until an error comes back, and reports it unless
  it is \<^verbatim>\<open>io.EOF\<close>. The number of calls is bounded by \<open>fuel\<close>; \<open>None\<close> means the bound was
  reached.
\<close>

fun ReadAll :: "nat \<Rightarrow> (nat \<Rightarrow> nat) \<Rightarrow> nat \<Rightarrow> qpUTF8 \<Rightarrow> (byte list \<times> qperr option) option" where
  "ReadAll 0 sz i q = None"
| "ReadAll (Suc fuel) sz i q =
     (case qpUTF8_Read q (Suc (sz i)) of
        (out, Some e, q') \<Rightarrow> Some (out, if e = EOF then None else Some e)
      | (out, None, q') \<Rightarrow>
          (case ReadAll fuel sz (Suc i) q' of
             None \<Rightarrow> None
           | Some (out', e') \<Rightarrow> Some (out @ out', e')))"




subsection \<open>Auxiliary facts\<close>


lemma length_le2_cases:
  "length (cs::'a list) \<le> 2 \<Longrightarrow> cs = [] \<or> (\<exists>a. cs = [a]) \<or> (\<exists>a b. cs = [a, b])"
  by (cases cs; cases "tl cs"; cases "tl (tl cs)") auto

lemma length6_cases:
  "length (xs::'a list) = 6 \<Longrightarrow> \<exists>a b c d e f. xs = [a, b, c, d, e, f]"
  by (cases xs; cases "tl xs"; cases "tl (tl xs)"; cases "tl (tl (tl xs))";
      cases "tl (tl (tl (tl xs)))"; cases "tl (tl (tl (tl (tl xs))))") auto

lemma cont_not_eol: "c AND 0xC0 = (0x80::byte) \<Longrightarrow> c \<noteq> 0x0D \<and> c \<noteq> 0x0A \<and> c AND 0xC0 \<noteq> 0xC0"
  by auto


section \<open>Claims about the quoted-printable reader\<close>

text \<open>
  C1. The lenient reader, on 4100 bytes that are all \<open>A\<close> except for an equals sign at index
  4095 followed by a line feed (respectively by a carriage return and a line feed), delivers
  exactly 4098 (respectively 4097) bytes \<open>A\<close> and the caller sees no error, whatever the sizes
  of the buffers passed to \<^verbatim>\<open>Read\<close>: the equals sign cut off by the 4096-byte source buffer
  is kept in \<^verbatim>\<open>prev\<close> and resolved as a soft line break on the next line read.
\<close>

theorem long_buffer_soft_break:
  "Copy sz 0 (NewReader (replicate 4095 0x41 @ [0x3D, 0x0A] @ replicate 3 0x41))
     = (replicate 4098 0x41, None)
   \<and> Copy sz 0 (NewReader (replicate 4095 0x41 @ [0x3D, 0x0D, 0x0A] @ replicate 2 0x41))
     = (replicate 4097 0x41, None)
   \<and> length (replicate 4095 (0x41::byte) @ [0x3D, 0x0A] @ replicate 3 0x41) = 4100
   \<and> length (replicate 4095 (0x41::byte) @ [0x3D, 0x0D, 0x0A] @ replicate 2 0x41) = 4100"
  using Copy_run[OF long_lf_run, of sz 0] Copy_run[OF long_crlf_run, of sz 0] by simp




text \<open>
  C8. When the scan meets an equals sign followed in the line by two bytes that are not both
  hexadecimal digits, it passes "invalid hex byte" for the first offending byte to the
  error record (which stores it while fewer than four errors are held), writes the equals
  sign itself to the output and advances past the equals sign only: the two bytes are
  scanned as ordinary input by the following iterations.
\<close>

theorem invalid_hex_keeps_equals_sign:
  assumes "lastLen r = 0" and "line r = 0x3D # x # y # rest"
    and "\<not> (isHexDigit x \<and> isHexDigit y)"
  shows "let e = InvalidHexByte (if isHexDigit x then y else x);
             r' = r\<lparr>gerr := RErr_add (Some e) (gerr r), line := x # y # rest\<rparr>
         in step r = Emit 0x3D r'
          \<and> (length (errs (gerr r)) < maxQPRErr \<longrightarrow> errs (gerr r') = errs (gerr r) @ [e])
          \<and> step r' = scanByte r'"
proof (cases "isHexDigit x")
  case True
  with assms(3) have y: "\<not> isHexDigit y" by simp
  from fromHex_Inr[OF True] obtain v where v: "fromHex x = Inr v" ..
  show ?thesis using assms(1,2) True v fromHex_Inl[OF y]
    by (simp add: Let_def step_def scanByte_def readHexByte_def RErr_add_def)
next
  case False
  show ?thesis using assms(1,2) False fromHex_Inl[OF False]
    by (simp add: Let_def step_def scanByte_def readHexByte_def RErr_add_def)
qed

theorem invalid_hex_keeps_equals_sign_witness:
  "step ((NewStrictReader [])\<lparr>line := [0x3D, 0x22, 0x68]\<rparr>)
     = Emit 0x3D ((NewStrictReader [])\<lparr>gerr := \<lparr>errs = [InvalidHexByte 0x22], fatal = None\<rparr>,
                                            line := [0x22, 0x68]\<rparr>)"
  using invalid_hex_keeps_equals_sign[of "(NewStrictReader [])\<lparr>line := [0x3D, 0x22, 0x68]\<rparr>" "0x22" "0x68" "[]"]
  by (simp add: NewStrictReader_def getReader_def isHexDigit_def Let_def RErr_add_def maxQPRErr_def)


section \<open>Claims about the UTF-8 rejoiner\<close>

text \<open>
  C5. Starting from \<^verbatim>\<open>stNormal\<close> with nothing held, let the buffer bring a lead byte \<open>L\<close>
  (top two bits 11), at most two continuation bytes \<open>cs\<close>, one line break (a line feed, or a
  carriage return and a line feed), then a byte \<open>Z\<close>. If \<open>Z\<close> is a continuation byte
  (\<open>Z AND 0xC0 = 0x80\<close>) it is written over the first byte of the line break at index
  \<^verbatim>\<open>pos\<close> and the held length becomes \<^verbatim>\<open>pos + 1\<close>, so that the sequence is later emitted
  without the line break. If \<open>Z\<close> is a lead byte the held bytes are emitted unchanged,
  line break included, and \<open>Z\<close> starts a new sequence; any other \<open>Z\<close> is emitted after the
  unchanged held bytes.
\<close>

theorem line_break_inside_sequence_excised:
  assumes q: "state q = stNormal" "pco q = 0" "cco q = 0" "length (own q) = 6"
    and L: "L AND 0xC0 = 0xC0"
    and cs: "\<forall>c\<in>set cs. c AND 0xC0 = 0x80" "length cs \<le> 2"
    and eol: "eol = [0x0A] \<or> eol = [0x0D, 0x0A]"
    and Y: "Y AND 0xC0 \<noteq> 0x80" "Y AND 0xC0 \<noteq> 0xC0"
    and b: "buf q = L # cs @ eol @ [Z, Y] @ junk"
    and room: "length out + length cs + 5 < mx"
  shows "(Z AND 0xC0 = 0x80 \<longrightarrow>
            (\<exists>q'. cycle q out 0 (length (L # cs @ eol @ [Z])) mx = (q', out, True)
               \<and> state q' = st0x10XXXXXX \<and> pos q' = length (L # cs) \<and> pco q' = pos q' + 1
               \<and> cco q' = 0 \<and> take (pco q') (own q') = L # cs @ [Z])
          \<and> (\<exists>q'. cycle q out 0 (length (L # cs @ eol @ [Z, Y])) mx = (q', out @ L # cs @ [Z, Y], True)
               \<and> state q' = stNormal \<and> pco q' = 0 \<and> cco q' = 0))
       \<and> (Z AND 0xC0 = 0xC0 \<longrightarrow>
            (\<exists>q'. cycle q out 0 (length (L # cs @ eol @ [Z])) mx = (q', out @ L # cs @ eol, True)
               \<and> state q' = stStart \<and> pco q' = 1 \<and> cco q' = 0 \<and> own q' ! 0 = Z))
       \<and> (Z AND 0xC0 \<noteq> 0x80 \<and> Z AND 0xC0 \<noteq> 0xC0 \<longrightarrow>
            (\<exists>q'. cycle q out 0 (length (L # cs @ eol @ [Z])) mx = (q', out @ L # cs @ eol @ [Z], True)
               \<and> state q' = stNormal \<and> pco q' = 0 \<and> cco q' = 0))"
  using length_le2_cases[OF cs(2)] eol length6_cases[OF q(4)]
  apply (elim disjE exE)
  using q(1,2,3) L cs Y b room cont_not_eol
       apply (simp_all add: cycle.simps release.simps switch_def UTFMax_def Let_def)
  done

theorem line_break_inside_sequence_excised_witness:
  "\<exists>q'. cycle ((newQPUTF8 [])\<lparr>buf := [0xC3, 0x0D, 0x0A, 0xA4, 0x67]\<rparr>) [] 0
             (length [0xC3, 0x0D, 0x0A, 0xA4, 0x67 :: byte]) 512
           = (q', [0xC3, 0xA4, 0x67], True) \<and> state q' = stNormal"
  using line_break_inside_sequence_excised[of "(newQPUTF8 [])\<lparr>buf := [0xC3, 0x0D, 0x0A, 0xA4, 0x67]\<rparr>"
      "0xC3" "[]" "[0x0D, 0x0A]" "0x67" "0xA4" "[]" "[]" 512]
  by (auto simp: newQPUTF8_def)

text \<open>
  C3 (the code departs from the claim). With an input that ends in a two-byte character
  followed by a line feed, the three bytes are held in \<^verbatim>\<open>own\<close> in state \<^verbatim>\<open>st0x0A\<close> when
  the source reports its end, and \<^verbatim>\<open>Read\<close> returns the error without releasing them: the
  caller receives nothing. Likewise a release that fills the caller's buffer exactly leaves
  the state at \<^verbatim>\<open>stRelease\<close>, and the next byte that passes through \<^verbatim>\<open>cycle\<close> is
  consumed without being stored or emitted.
\<close>

lemma held_bytes_lost_eval:
  "ReadAll 5 (\<lambda>_. 511) 0 (newQPUTF8 [0xC3, 0xA5, 0x0A]) = Some ([], None)"
  by code_simp

lemma byte_after_full_release_lost_eval:
  "ReadAll 9 (\<lambda>_. 3) 0 (newQPUTF8 [0x61, 0x62, 0xC3, 0x78, 0x79, 0x7A])
     = Some ([0x61, 0x62, 0xC3, 0x78, 0x7A], None)"
  by code_simp

theorem rejoiner_loses_bytes:
  "ReadAll 5 (\<lambda>_. 511) 0 (newQPUTF8 [0xC3, 0xA5, 0x0A]) = Some ([], None)
   \<and> ReadAll 9 (\<lambda>_. 3) 0 (newQPUTF8 [0x61, 0x62, 0xC3, 0x78, 0x79, 0x7A])
       = Some ([0x61, 0x62, 0xC3, 0x78, 0x7A], None)"
  using held_bytes_lost_eval byte_after_full_release_lost_eval by simp

end
